theory Spec2Isabelle
  imports Complex_Main "HOL-Library.AList"
begin

section \<open>Data model\<close>

text \<open>
  A sequence entry is a pair of a label and a residue string, as in the source's
  \<^verbatim>\<open>List[Tuple[str, str]]\<close>.  Python exceptions are values of \<open>py_error\<close>; a function that
  can raise returns \<open>py_error + 'a\<close> with \<open>Inl\<close> for the exception.  Python's floats are
  modelled by exact rationals: every ratio of the source is one integer division
  \<^verbatim>\<open>a / b\<close> and every threshold test is one comparison.
\<close>

datatype py_error = ValueError | IndexError

type_synonym entry = "string \<times> string"

record metrics =
  gap_ratio :: rat
  cons_ratio :: rat

definition gap_char :: char where
  "gap_char = CHR ''-''"

subsection \<open>\<^verbatim>\<open>all_equal_length\<close>\<close>

definition all_equal_length :: "entry list \<Rightarrow> bool" where
  "all_equal_length entries = (card (set (map (\<lambda>(h, s). length s) entries)) = 1)"

section \<open>Column scorer\<close>

text \<open>\<^verbatim>\<open>col=[s[i] for s in aligned_seqs]\<close>: reading past the end of a string raises.\<close>

definition column :: "string list \<Rightarrow> nat \<Rightarrow> py_error + string" where
  "column aligned_seqs i =
     (if \<forall>s \<in> set aligned_seqs. i < length s then Inr (map (\<lambda>s. s ! i) aligned_seqs)
      else Inl IndexError)"

text \<open>
  The dictionary \<^verbatim>\<open>cnt\<close> is an association list; \<^verbatim>\<open>cnt.get(c,0)\<close> and
  \<^verbatim>\<open>cnt[c]=cnt.get(c,0)+1\<close>.
\<close>

definition cnt_get :: "(char \<times> nat) list \<Rightarrow> char \<Rightarrow> nat" where
  "cnt_get cnt c = (case map_of cnt c of None \<Rightarrow> 0 | Some v \<Rightarrow> v)"

definition cnt_add :: "char \<Rightarrow> (char \<times> nat) list \<Rightarrow> (char \<times> nat) list" where
  "cnt_add c cnt = AList.update c (cnt_get cnt c + 1) cnt"

definition col_metrics :: "string \<Rightarrow> nat \<Rightarrow> metrics" where
  "col_metrics col n =
     (let gaps = length (filter (\<lambda>c. c = gap_char) col);
          non = filter (\<lambda>c. c \<noteq> gap_char) col;
          gr = of_nat gaps / of_nat n;
          cr = (if non = [] then 0
                else (let cnt = fold cnt_add non []
                      in of_nat (Max (set (map snd cnt))) / of_nat (length non)))
      in \<lparr>gap_ratio = gr, cons_ratio = cr\<rparr>)"

fun mets_loop :: "string list \<Rightarrow> nat \<Rightarrow> nat list \<Rightarrow> py_error + metrics list" where
  "mets_loop aligned_seqs n [] = Inr []"
| "mets_loop aligned_seqs n (i # is) =
     (case column aligned_seqs i of
        Inl e \<Rightarrow> Inl e
      | Inr col \<Rightarrow>
          (case mets_loop aligned_seqs n is of
             Inl e \<Rightarrow> Inl e
           | Inr mets \<Rightarrow> Inr (col_metrics col n # mets)))"

definition column_metrics :: "string list \<Rightarrow> py_error + metrics list" where
  "column_metrics aligned_seqs =
     (case aligned_seqs of
        [] \<Rightarrow> Inl IndexError
      | s0 # _ \<Rightarrow> mets_loop aligned_seqs (length aligned_seqs) [0..<length s0])"

section \<open>Block extractor\<close>

subsection \<open>\<^verbatim>\<open>_allow_short_nonconserved_runs\<close>\<close>

text \<open>The inner loop \<^verbatim>\<open>while j<L and not m[j]: j+=1\<close>.\<close>

function scan_run :: "bool list \<Rightarrow> nat \<Rightarrow> nat" where
  "scan_run m j = (if j < length m \<and> \<not> m ! j then scan_run m (j + 1) else j)"
  by pat_completeness auto
termination
  by (relation "measure (\<lambda>(m, j). length m - j)") auto

declare scan_run.simps [simp del]

text \<open>\<^verbatim>\<open>for k in range(i,j): m[k]=True\<close>.\<close>

definition fill_true :: "bool list \<Rightarrow> nat \<Rightarrow> nat \<Rightarrow> bool list" where
  "fill_true m i j = fold (\<lambda>k m. m[k := True]) [i..<j] m"

lemma length_fill_true [simp]: "length (fill_true m i j) = length m"
proof -
  have "length (fold (\<lambda>k m. m[k := True]) ks m) = length m" for ks
    by (induction ks arbitrary: m) auto
  then show ?thesis by (simp add: fill_true_def)
qed

lemma scan_run_step:
  "j < length m \<Longrightarrow> \<not> m ! j \<Longrightarrow> scan_run m j = scan_run m (j + 1)"
  by (subst scan_run.simps) simp

lemma scan_run_stop: "\<not> (j < length m \<and> \<not> m ! j) \<Longrightarrow> scan_run m j = j"
  by (subst scan_run.simps) auto

lemma scan_run_ge: "j \<le> scan_run m j"
proof (induction m j rule: scan_run.induct)
  case (1 m j)
  show ?case
  proof (cases "j < length m \<and> \<not> m ! j")
    case True
    with 1 have "j + 1 \<le> scan_run m (j + 1)" by simp
    with True show ?thesis by (simp add: scan_run_step)
  next
    case False
    then show ?thesis by (simp add: scan_run_stop)
  qed
qed

lemma scan_run_gt: "j < length m \<Longrightarrow> \<not> m ! j \<Longrightarrow> j < scan_run m j"
  using scan_run_ge [of "j + 1" m] by (simp add: scan_run_step)

lemma scan_run_le: "j \<le> length m \<Longrightarrow> scan_run m j \<le> length m"
proof (induction m j rule: scan_run.induct)
  case (1 m j)
  show ?case
  proof (cases "j < length m \<and> \<not> m ! j")
    case True
    with 1 have "scan_run m (j + 1) \<le> length m" by simp
    with True show ?thesis by (simp add: scan_run_step)
  next
    case False
    with 1 show ?thesis by (simp add: scan_run_stop)
  qed
qed

function absorb_loop :: "bool list \<Rightarrow> int \<Rightarrow> nat \<Rightarrow> bool list" where
  "absorb_loop m max_run i =
     (if i < length m then
        (if \<not> m ! i then
           (let j = scan_run m i;
                run = j - i;
                left_true = (1 \<le> i \<and> m ! (i - 1));
                right_true = (j < length m \<and> m ! j)
            in absorb_loop
                 (if int run \<le> max_run \<and> left_true \<and> right_true then fill_true m i j else m)
                 max_run j)
         else absorb_loop m max_run (i + 1))
      else m)"
  by pat_completeness auto
termination
proof (relation "measure (\<lambda>(m, max_run, i). length m - i)", goal_cases)
  case 1
  show ?case by simp
next
  case (2 m max_run i j run left_true right_true)
  then have "i < j" "j \<le> length m"
    using scan_run_gt [of i m] scan_run_le [of i m] by auto
  with 2 show ?case by auto
next
  case (3 m max_run i)
  then show ?case by auto
qed

declare absorb_loop.simps [simp del]

definition allow_short_nonconserved_runs :: "bool list \<Rightarrow> int \<Rightarrow> bool list" where
  "allow_short_nonconserved_runs msk max_run =
     (if max_run \<le> 0 then msk else absorb_loop msk max_run 0)"

subsection \<open>\<^verbatim>\<open>find_blocks\<close>\<close>

fun find_blocks_loop ::
  "(nat \<times> bool) list \<Rightarrow> int \<Rightarrow> nat option \<Rightarrow> (nat \<times> nat) list \<Rightarrow> (nat \<times> nat) list" where
  "find_blocks_loop [] min_len s blocks = blocks"
| "find_blocks_loop ((i, keep) # rest) min_len s blocks =
     (case s of
        None \<Rightarrow> (if keep then find_blocks_loop rest min_len (Some i) blocks
                 else find_blocks_loop rest min_len None blocks)
      | Some s0 \<Rightarrow>
          (if \<not> keep then
             find_blocks_loop rest min_len None
               (if min_len \<le> int i - int s0 then blocks @ [(s0, i)] else blocks)
           else find_blocks_loop rest min_len (Some s0) blocks))"

definition find_blocks :: "bool list \<Rightarrow> int \<Rightarrow> (nat \<times> nat) list" where
  "find_blocks msk min_len = find_blocks_loop (enumerate 0 (msk @ [False])) min_len None []"

subsection \<open>\<^verbatim>\<open>soft_trim_block\<close>\<close>

definition col_ok :: "metrics \<Rightarrow> rat \<Rightarrow> rat \<Rightarrow> bool" where
  "col_ok m max_gap cons = (gap_ratio m \<le> max_gap \<and> cons \<le> cons_ratio m)"

function trim_left :: "metrics list \<Rightarrow> rat \<Rightarrow> rat \<Rightarrow> nat \<Rightarrow> nat \<Rightarrow> py_error + nat" where
  "trim_left mets flank_cons max_gap s e =
     (if s < e then
        (if length mets \<le> s then Inl IndexError
         else if \<not> col_ok (mets ! s) max_gap flank_cons
              then trim_left mets flank_cons max_gap (s + 1) e
              else Inr s)
      else Inr s)"
  by pat_completeness auto
termination
  by (relation "measure (\<lambda>(mets, flank_cons, max_gap, s, e). e - s)") auto

declare trim_left.simps [simp del]

function trim_right :: "metrics list \<Rightarrow> rat \<Rightarrow> rat \<Rightarrow> nat \<Rightarrow> nat \<Rightarrow> py_error + nat" where
  "trim_right mets flank_cons max_gap s e =
     (if s < e then
        (if length mets \<le> e - 1 then Inl IndexError
         else if \<not> col_ok (mets ! (e - 1)) max_gap flank_cons
              then trim_right mets flank_cons max_gap s (e - 1)
              else Inr e)
      else Inr e)"
  by pat_completeness auto
termination
  by (relation "measure (\<lambda>(mets, flank_cons, max_gap, s, e). e - s)") auto

declare trim_right.simps [simp del]

definition soft_trim_block ::
  "nat \<times> nat \<Rightarrow> metrics list \<Rightarrow> rat \<Rightarrow> rat \<Rightarrow> py_error + (nat \<times> nat) option" where
  "soft_trim_block b mets flank_cons max_gap =
     (case b of (s, e) \<Rightarrow>
        (case trim_left mets flank_cons max_gap s e of
           Inl err \<Rightarrow> Inl err
         | Inr s' \<Rightarrow>
             (case trim_right mets flank_cons max_gap s' e of
                Inl err \<Rightarrow> Inl err
              | Inr e' \<Rightarrow> Inr (if s' < e' then Some (s', e') else None))))"

subsection \<open>\<^verbatim>\<open>gblock_filter\<close>\<close>

text \<open>
  The list comprehension
  \<^verbatim>\<open>[tb for b in blocks if (tb:=soft_trim_block(...)) and (tb[1]-tb[0])>=min_block_len]\<close>.
\<close>

fun trim_blocks ::
  "(nat \<times> nat) list \<Rightarrow> metrics list \<Rightarrow> rat \<Rightarrow> rat \<Rightarrow> int \<Rightarrow> py_error + (nat \<times> nat) list" where
  "trim_blocks [] mets flank_cons max_gap min_block_len = Inr []"
| "trim_blocks (b # bs) mets flank_cons max_gap min_block_len =
     (case soft_trim_block b mets flank_cons max_gap of
        Inl err \<Rightarrow> Inl err
      | Inr tb \<Rightarrow>
          (case trim_blocks bs mets flank_cons max_gap min_block_len of
             Inl err \<Rightarrow> Inl err
           | Inr tbs \<Rightarrow>
               (case tb of
                  None \<Rightarrow> Inr tbs
                | Some (s, e) \<Rightarrow>
                    Inr (if min_block_len \<le> int e - int s then (s, e) # tbs else tbs))))"

text \<open>\<^verbatim>\<open>any(seq[i] != '-' for seq in seqs)\<close>, which stops at the first non-gap.\<close>

fun any_nongap :: "string list \<Rightarrow> nat \<Rightarrow> py_error + bool" where
  "any_nongap [] i = Inr False"
| "any_nongap (seq # seqs) i =
     (if length seq \<le> i then Inl IndexError
      else if seq ! i \<noteq> gap_char then Inr True
      else any_nongap seqs i)"

fun drop_gap_columns :: "string list \<Rightarrow> nat list \<Rightarrow> py_error + nat list" where
  "drop_gap_columns seqs [] = Inr []"
| "drop_gap_columns seqs (i # keep) =
     (case any_nongap seqs i of
        Inl err \<Rightarrow> Inl err
      | Inr b \<Rightarrow>
          (case drop_gap_columns seqs keep of
             Inl err \<Rightarrow> Inl err
           | Inr keep' \<Rightarrow> Inr (if b then i # keep' else keep')))"

text \<open>\<^verbatim>\<open>"".join(seq[i] for i in keep)\<close>.\<close>

definition select_columns :: "string \<Rightarrow> nat list \<Rightarrow> py_error + string" where
  "select_columns seq keep =
     (if \<forall>i \<in> set keep. i < length seq then Inr (map (\<lambda>i. seq ! i) keep) else Inl IndexError)"

fun assemble :: "entry list \<Rightarrow> nat list \<Rightarrow> py_error + entry list" where
  "assemble [] keep = Inr []"
| "assemble ((h, seq) # entries) keep =
     (case select_columns seq keep of
        Inl err \<Rightarrow> Inl err
      | Inr r \<Rightarrow>
          (case assemble entries keep of
             Inl err \<Rightarrow> Inl err
           | Inr out \<Rightarrow> Inr ((h, r) # out)))"

text \<open>
  The first half of \<^verbatim>\<open>gblock_filter\<close>, up to and including the soft trim: the value
  of the source's variable \<^verbatim>\<open>blocks\<close> when it is tested by \<^verbatim>\<open>if not blocks\<close>.
\<close>

definition base_mask :: "metrics list \<Rightarrow> rat \<Rightarrow> rat \<Rightarrow> bool list" where
  "base_mask mets max_gap min_cons = map (\<lambda>m. col_ok m max_gap min_cons) mets"

definition gblock_blocks ::
  "metrics list \<Rightarrow> int \<Rightarrow> rat \<Rightarrow> rat \<Rightarrow> rat option \<Rightarrow> int \<Rightarrow> py_error + (nat \<times> nat) list" where
  "gblock_blocks mets min_block_len max_gap min_cons flank_cons max_noncons_run =
     (let msk = base_mask mets max_gap min_cons;
          msk = (if 0 < max_noncons_run
                 then allow_short_nonconserved_runs msk max_noncons_run else msk);
          blocks = find_blocks msk min_block_len
      in case flank_cons of
           None \<Rightarrow> Inr blocks
         | Some fc \<Rightarrow> trim_blocks blocks mets fc max_gap min_block_len)"

definition keep_columns :: "(nat \<times> nat) list \<Rightarrow> nat list" where
  "keep_columns blocks = concat (map (\<lambda>(s, e). [s..<e]) blocks)"

definition gblock_filter ::
  "entry list \<Rightarrow> int \<Rightarrow> rat \<Rightarrow> rat \<Rightarrow> rat option \<Rightarrow> bool \<Rightarrow> int \<Rightarrow> py_error + entry list" where
  "gblock_filter entries min_block_len max_gap min_cons flank_cons drop_all_gap_columns
       max_noncons_run =
     (if \<not> all_equal_length entries then Inl ValueError
      else
        (let headers = map fst entries; seqs = map snd entries
         in case column_metrics seqs of
              Inl err \<Rightarrow> Inl err
            | Inr mets \<Rightarrow>
                (case gblock_blocks mets min_block_len max_gap min_cons flank_cons
                        max_noncons_run of
                   Inl err \<Rightarrow> Inl err
                 | Inr blocks \<Rightarrow>
                     if blocks = [] then Inr (map (\<lambda>h. (h, [])) headers)
                     else
                       (case (if drop_all_gap_columns
                              then drop_gap_columns seqs (keep_columns blocks)
                              else Inr (keep_columns blocks)) of
                          Inl err \<Rightarrow> Inl err
                        | Inr keep \<Rightarrow> assemble entries keep))))"

section \<open>Specification-side definitions\<close>

text \<open>
  The column scorer as the specification words it: the gap ratio is the number of
  sequences with a gap at the column over the number of sequences; the conservation
  ratio is 0 for an all-gap column and otherwise the largest number of occurrences of
  one residue symbol over the number of non-gap entries.
\<close>
definition residues_at :: "string list \<Rightarrow> nat \<Rightarrow> string" where
  "residues_at seqs i = filter (\<lambda>c. c \<noteq> gap_char) (map (\<lambda>s. s ! i) seqs)"

definition residue_count :: "string list \<Rightarrow> nat \<Rightarrow> char \<Rightarrow> nat" where
  "residue_count seqs i c = length (filter (\<lambda>s. s ! i = c) seqs)"

definition spec_gap_ratio :: "string list \<Rightarrow> nat \<Rightarrow> rat" where
  "spec_gap_ratio seqs i =
     of_nat (length (filter (\<lambda>s. s ! i = gap_char) seqs)) / of_nat (length seqs)"

definition spec_cons_ratio :: "string list \<Rightarrow> nat \<Rightarrow> rat" where
  "spec_cons_ratio seqs i =
     (if \<forall>s \<in> set seqs. s ! i = gap_char then 0
      else of_nat (Max (residue_count seqs i ` set (residues_at seqs i))) /
           of_nat (length (filter (\<lambda>s. s ! i \<noteq> gap_char) seqs)))"

text \<open>The golden example of the block extractor.\<close>

definition golden_entries :: "entry list" where
  "golden_entries = [(''s1'', ''MSTAG''), (''s2'', ''MST-G''), (''s3'', ''MSTTG'')]"

definition golden_mets :: "metrics list" where
  "golden_mets =
     [\<lparr>gap_ratio = 0, cons_ratio = 1\<rparr>, \<lparr>gap_ratio = 0, cons_ratio = 1\<rparr>,
      \<lparr>gap_ratio = 0, cons_ratio = 1\<rparr>, \<lparr>gap_ratio = 1 / 3, cons_ratio = 1 / 2\<rparr>,
      \<lparr>gap_ratio = 0, cons_ratio = 1\<rparr>]"

text \<open>
  Run absorption as the specification words it: a maximal run \<open>[i, j)\<close> of unkept columns
  with a kept column immediately on both sides and of length at most \<open>max_run\<close>; a column
  is promoted when it lies in such a run.
\<close>

definition short_inner_run :: "bool list \<Rightarrow> int \<Rightarrow> nat \<Rightarrow> nat \<Rightarrow> bool" where
  "short_inner_run m max_run i j \<longleftrightarrow>
     0 < i \<and> i < j \<and> j < length m \<and> m ! (i - 1) \<and> m ! j \<and>
     (\<forall>t \<in> {i..<j}. \<not> m ! t) \<and> int (j - i) \<le> max_run"

definition promoted :: "bool list \<Rightarrow> int \<Rightarrow> nat \<Rightarrow> bool" where
  "promoted m max_run k \<longleftrightarrow>
     (\<exists>i \<in> {..k}. \<exists>j \<in> {k<..<length m}. short_inner_run m max_run i j)"

text \<open>
  What \<^verbatim>\<open>find_blocks\<close> and the soft trim guarantee of each block they return (the mask is
  extended by the sentinel \<open>False\<close> as in the source).
\<close>

definition good_block :: "bool list \<Rightarrow> int \<Rightarrow> nat \<times> nat \<Rightarrow> bool" where
  "good_block M k b \<longleftrightarrow>
     (case b of (s, e) \<Rightarrow>
        s < e \<and> e < length M \<and> (\<forall>t. s \<le> t \<and> t < e \<longrightarrow> M ! t) \<and> \<not> M ! e \<and>
        (s = 0 \<or> \<not> M ! (s - 1)) \<and> k \<le> int e - int s)"

definition good_trim ::
  "metrics list \<Rightarrow> rat \<Rightarrow> rat \<Rightarrow> int \<Rightarrow> (nat \<times> nat) list \<Rightarrow> nat \<times> nat \<Rightarrow> bool" where
  "good_trim mets fc mg k blocks tb \<longleftrightarrow>
     (case tb of (s', e') \<Rightarrow>
        \<exists>(s, e) \<in> set blocks. s \<le> s' \<and> s' < e' \<and> e' \<le> e \<and>
          col_ok (mets ! s') mg fc \<and> col_ok (mets ! (e' - 1)) mg fc \<and>
          (s' = s \<or> \<not> col_ok (mets ! s) mg fc) \<and>
          (e' = e \<or> \<not> col_ok (mets ! (e - 1)) mg fc) \<and>
          k \<le> int e' - int s')"

section \<open>Facts about the column scorer\<close>


lemma all_equal_length_iff:
  "all_equal_length entries \<longleftrightarrow>
     entries \<noteq> [] \<and> (\<forall>e \<in> set entries. length (snd e) = length (snd (hd entries)))"
proof
  assume "all_equal_length entries"
  then obtain x where x: "(\<lambda>(h, s). length s) ` set entries = {x}"
    by (auto simp: all_equal_length_def card_1_singleton_iff)
  then have ne: "entries \<noteq> []" by auto
  then have "hd entries \<in> set entries" by simp
  with x have "\<forall>e \<in> set entries. length (snd e) = x" "length (snd (hd entries)) = x"
    by (auto simp: case_prod_beta)
  with ne show "entries \<noteq> [] \<and> (\<forall>e \<in> set entries. length (snd e) = length (snd (hd entries)))"
    by simp
next
  assume a: "entries \<noteq> [] \<and> (\<forall>e \<in> set entries. length (snd e) = length (snd (hd entries)))"
  then have "(\<lambda>(h, s). length s) ` set entries = {length (snd (hd entries))}"
    by (cases entries) (auto simp: case_prod_beta)
  then show "all_equal_length entries"
    by (simp add: all_equal_length_def)
qed

lemma mets_loop_ok:
  "\<forall>s \<in> set seqs. length s = L \<Longrightarrow> \<forall>i \<in> set idxs. i < L \<Longrightarrow>
   mets_loop seqs n idxs = Inr (map (\<lambda>i. col_metrics (map (\<lambda>s. s ! i) seqs) n) idxs)"
  by (induction idxs) (auto simp: column_def)

lemma column_metrics_ok:
  assumes "seqs \<noteq> []" "\<forall>s \<in> set seqs. length s = L"
  shows "column_metrics seqs =
           Inr (map (\<lambda>i. col_metrics (map (\<lambda>s. s ! i) seqs) (length seqs)) [0..<L])"
proof -
  from assms obtain s0 rest where sq: "seqs = s0 # rest" by (cases seqs) auto
  with assms have "length s0 = L" by simp
  with sq show ?thesis
    using mets_loop_ok [of seqs L "[0..<L]" "length seqs"] assms(2)
    by (simp add: column_metrics_def)
qed

lemma cnt_add_props:
  assumes "distinct (map fst cnt)"
  shows "distinct (map fst (cnt_add c cnt))"
    and "fst ` set (cnt_add c cnt) = insert c (fst ` set cnt)"
    and "cnt_get (cnt_add c cnt) d = (if d = c then cnt_get cnt c + 1 else cnt_get cnt d)"
  using assms
  by (auto simp: cnt_add_def cnt_get_def distinct_update dom_update update_conv')

lemma fold_cnt_add_props:
  "distinct (map fst cnt) \<Longrightarrow>
   distinct (map fst (fold cnt_add xs cnt)) \<and>
   fst ` set (fold cnt_add xs cnt) = set xs \<union> fst ` set cnt \<and>
   (\<forall>d. cnt_get (fold cnt_add xs cnt) d = cnt_get cnt d + count_list xs d)"
proof (induction xs arbitrary: cnt)
  case Nil
  then show ?case by simp
next
  case (Cons x xs)
  from Cons.prems have d: "distinct (map fst (cnt_add x cnt))" by (rule cnt_add_props(1))
  from Cons.IH [OF d] show ?case
    by (auto simp: cnt_add_props(2,3) [OF Cons.prems])
qed

lemma fold_cnt_add_values:
  "snd ` set (fold cnt_add xs []) = count_list xs ` set xs"
proof -
  let ?al = "fold cnt_add xs []"
  have p: "distinct (map fst ?al)" "fst ` set ?al = set xs"
    "\<And>d. cnt_get ?al d = count_list xs d"
    using fold_cnt_add_props [of "[]" xs] by (auto simp: cnt_get_def)
  have "(k, v) \<in> set ?al \<longleftrightarrow> k \<in> set xs \<and> v = count_list xs k" for k v
  proof
    assume kv: "(k, v) \<in> set ?al"
    with p(1) have "map_of ?al k = Some v" by simp
    then have "cnt_get ?al k = v" by (simp add: cnt_get_def)
    moreover from kv p(2) have "k \<in> set xs" by force
    ultimately show "k \<in> set xs \<and> v = count_list xs k" using p(3) by simp
  next
    assume a: "k \<in> set xs \<and> v = count_list xs k"
    with p(2) obtain w where w: "(k, w) \<in> set ?al" by force
    with p(1) have "map_of ?al k = Some w" by simp
    then have "cnt_get ?al k = w" by (simp add: cnt_get_def)
    with p(3) a w show "(k, v) \<in> set ?al" by simp
  qed
  then show ?thesis by force
qed

lemma count_list_map: "count_list (map f xs) c = length (filter (\<lambda>x. f x = c) xs)"
  by (induction xs) auto

lemma count_list_filter: "count_list (filter P xs) c = (if P c then count_list xs c else 0)"
  by (induction xs) auto

lemma col_metrics_gap_ratio:
  "gap_ratio (col_metrics (map (\<lambda>s. s ! i) seqs) (length seqs)) = spec_gap_ratio seqs i"
  by (simp add: col_metrics_def spec_gap_ratio_def Let_def filter_map comp_def)

lemma col_metrics_cons_ratio:
  "cons_ratio (col_metrics (map (\<lambda>s. s ! i) seqs) n) = spec_cons_ratio seqs i"
proof -
  let ?col = "map (\<lambda>s. s ! i) seqs"
  let ?non = "filter (\<lambda>c. c \<noteq> gap_char) ?col"
  have e: "?non = [] \<longleftrightarrow> (\<forall>s \<in> set seqs. s ! i = gap_char)"
    by (auto simp: filter_empty_conv)
  have c: "count_list ?non c = residue_count seqs i c" if "c \<in> set ?non" for c
    using that by (auto simp: count_list_filter count_list_map residue_count_def)
  have "snd ` set (fold cnt_add ?non []) = residue_count seqs i ` set ?non"
    unfolding fold_cnt_add_values using c by (intro image_cong) auto
  then have m: "Max (set (map snd (fold cnt_add ?non []))) =
                Max (residue_count seqs i ` set (residues_at seqs i))"
    by (simp add: residues_at_def)
  have l: "length ?non = length (filter (\<lambda>s. s ! i \<noteq> gap_char) seqs)"
    by (simp add: filter_map comp_def)
  show ?thesis
    unfolding col_metrics_def spec_cons_ratio_def Let_def
    using e m l by simp
qed

lemma spec_gap_ratio_bounds:
  "seqs \<noteq> [] \<Longrightarrow> 0 \<le> spec_gap_ratio seqs i \<and> spec_gap_ratio seqs i \<le> 1"
proof -
  assume "seqs \<noteq> []"
  then have "0 < length seqs" by simp
  moreover have "length (filter (\<lambda>s. s ! i = gap_char) seqs) \<le> length seqs" by simp
  ultimately show ?thesis
    by (simp add: spec_gap_ratio_def divide_le_eq)
qed

lemma spec_cons_ratio_bounds: "0 \<le> spec_cons_ratio seqs i \<and> spec_cons_ratio seqs i \<le> 1"
proof (cases "\<forall>s \<in> set seqs. s ! i = gap_char")
  case True
  then show ?thesis by (simp add: spec_cons_ratio_def)
next
  case False
  let ?n = "length (filter (\<lambda>s. s ! i \<noteq> gap_char) seqs)"
  from False have ne: "set (residues_at seqs i) \<noteq> {}"
    by (auto simp: residues_at_def filter_empty_conv)
  from False have pos: "0 < ?n" by (auto simp: length_greater_0_conv filter_empty_conv)
  have "residue_count seqs i c \<le> ?n" if "c \<in> set (residues_at seqs i)" for c
  proof -
    from that have "c \<noteq> gap_char" by (auto simp: residues_at_def)
    then have "filter (\<lambda>s. s ! i = c) seqs =
               filter (\<lambda>s. s ! i = c) (filter (\<lambda>s. s ! i \<noteq> gap_char) seqs)"
      by (auto intro: filter_cong)
    then have "residue_count seqs i c =
               length (filter (\<lambda>s. s ! i = c) (filter (\<lambda>s. s ! i \<noteq> gap_char) seqs))"
      by (simp only: residue_count_def)
    also have "\<dots> \<le> ?n" by (rule length_filter_le)
    finally show ?thesis .
  qed
  with ne have "Max (residue_count seqs i ` set (residues_at seqs i)) \<le> ?n"
    by (subst Max_le_iff) auto
  with pos False show ?thesis
    by (simp add: spec_cons_ratio_def divide_le_eq)
qed

section \<open>Facts about the block extractor\<close>

lemma drop_eq_ConsD:
  assumes "drop n M = x # xs"
  shows "n < length M \<and> M ! n = x \<and> drop (Suc n) M = xs"
proof -
  have n: "n < length M"
  proof (rule ccontr)
    assume "\<not> n < length M"
    then have "drop n M = []" by simp
    with assms show False by simp
  qed
  then have "M ! n # drop (Suc n) M = drop n M" by (rule Cons_nth_drop_Suc)
  with assms n show ?thesis by simp
qed

lemma find_blocks_loop_good:
  assumes "drop n M = xs"
    and "\<forall>b \<in> set blocks. good_block M k b"
    and "case st of None \<Rightarrow> n = 0 \<or> \<not> M ! (n - 1)
         | Some s0 \<Rightarrow> s0 < n \<and> (\<forall>t. s0 \<le> t \<and> t < n \<longrightarrow> M ! t) \<and> (s0 = 0 \<or> \<not> M ! (s0 - 1))"
  shows "\<forall>b \<in> set (find_blocks_loop (enumerate n xs) k st blocks). good_block M k b"
  using assms
proof (induction xs arbitrary: n st blocks)
  case Nil
  then show ?case by simp
next
  case (Cons x xs)
  from Cons.prems(1) have n: "n < length M" "M ! n = x" "drop (Suc n) M = xs"
    using drop_eq_ConsD [of n M x xs] by simp_all
  show ?case
  proof (cases st)
    case None
    show ?thesis
    proof (cases x)
      case True
      have "\<forall>b \<in> set (find_blocks_loop (enumerate (Suc n) xs) k (Some n) blocks). good_block M k b"
        using n None True Cons.prems(2,3)
        by (intro Cons.IH) (auto simp: less_Suc_eq)
      with None True show ?thesis by simp
    next
      case False
      have "\<forall>b \<in> set (find_blocks_loop (enumerate (Suc n) xs) k None blocks). good_block M k b"
        using n None False Cons.prems(2,3)
        by (intro Cons.IH) auto
      with None False show ?thesis by simp
    qed
  next
    case (Some s0)
    show ?thesis
    proof (cases x)
      case True
      have "\<forall>b \<in> set (find_blocks_loop (enumerate (Suc n) xs) k (Some s0) blocks). good_block M k b"
        using n Some True Cons.prems(2,3)
        by (intro Cons.IH) (auto simp: less_Suc_eq)
      with Some True show ?thesis by simp
    next
      case False
      let ?bl = "if k \<le> int n - int s0 then blocks @ [(s0, n)] else blocks"
      have "\<forall>b \<in> set ?bl. good_block M k b"
        using n Some False Cons.prems(2,3) by (auto simp: good_block_def)
      then have "\<forall>b \<in> set (find_blocks_loop (enumerate (Suc n) xs) k None ?bl). good_block M k b"
        using n Some False
        by (intro Cons.IH) auto
      with Some False show ?thesis by simp
    qed
  qed
qed

lemma find_blocks_good:
  "\<forall>b \<in> set (find_blocks m k). good_block (m @ [False]) k b"
  unfolding find_blocks_def
  using find_blocks_loop_good [of 0 "m @ [False]" "m @ [False]" "[]" k None]
  by simp

lemma trim_left_ok:
  "e \<le> length mets \<Longrightarrow> s \<le> e \<Longrightarrow>
   \<exists>s'. trim_left mets fc mg s e = Inr s' \<and> s \<le> s' \<and> s' \<le> e \<and>
        (s' < e \<longrightarrow> col_ok (mets ! s') mg fc) \<and>
        (s' = s \<or> \<not> col_ok (mets ! s) mg fc)"
proof (induction mets fc mg s e rule: trim_left.induct)
  case (1 mets fc mg s e)
  show ?case
  proof (cases "s < e")
    case False
    with 1 show ?thesis by (subst trim_left.simps) simp
  next
    case True
    show ?thesis
    proof (cases "col_ok (mets ! s) mg fc")
      case ok: True
      with True 1 show ?thesis by (subst trim_left.simps) simp
    next
      case nok: False
      from True 1(2) have "\<not> length mets \<le> s" by simp
      moreover from True have "s + 1 \<le> e" by simp
      ultimately obtain s' where "trim_left mets fc mg (s + 1) e = Inr s'" "s + 1 \<le> s'"
        "s' \<le> e" "s' < e \<longrightarrow> col_ok (mets ! s') mg fc"
        using 1(1) [OF True _ nok 1(2)] by blast
      with True nok 1(2) show ?thesis by (subst trim_left.simps) auto
    qed
  qed
qed

lemma trim_right_ok:
  "e \<le> length mets \<Longrightarrow> s \<le> e \<Longrightarrow>
   \<exists>e'. trim_right mets fc mg s e = Inr e' \<and> s \<le> e' \<and> e' \<le> e \<and>
        (s < e' \<longrightarrow> col_ok (mets ! (e' - 1)) mg fc) \<and>
        (e' = e \<or> \<not> col_ok (mets ! (e - 1)) mg fc)"
proof (induction mets fc mg s e rule: trim_right.induct)
  case (1 mets fc mg s e)
  show ?case
  proof (cases "s < e")
    case False
    with 1 show ?thesis by (subst trim_right.simps) simp
  next
    case True
    show ?thesis
    proof (cases "col_ok (mets ! (e - 1)) mg fc")
      case ok: True
      with True 1 show ?thesis by (subst trim_right.simps) auto
    next
      case nok: False
      from True 1(2) have "\<not> length mets \<le> e - 1" by simp
      moreover from True 1(2) have "e - 1 \<le> length mets" "s \<le> e - 1" by simp_all
      ultimately obtain e' where "trim_right mets fc mg s (e - 1) = Inr e'" "s \<le> e'"
        "e' \<le> e - 1" "s < e' \<longrightarrow> col_ok (mets ! (e' - 1)) mg fc"
        using 1(1) [OF True _ nok] by blast
      with True nok 1(2) show ?thesis by (subst trim_right.simps) auto
    qed
  qed
qed

lemma soft_trim_block_ok:
  assumes "e \<le> length mets" "s \<le> e"
  shows "soft_trim_block (s, e) mets fc mg = Inr None \<or>
         (\<exists>s' e'. soft_trim_block (s, e) mets fc mg = Inr (Some (s', e')) \<and>
            s \<le> s' \<and> s' < e' \<and> e' \<le> e \<and>
            col_ok (mets ! s') mg fc \<and> col_ok (mets ! (e' - 1)) mg fc \<and>
            (s' = s \<or> \<not> col_ok (mets ! s) mg fc) \<and>
            (e' = e \<or> \<not> col_ok (mets ! (e - 1)) mg fc))"
proof -
  from trim_left_ok [OF assms, of fc mg] obtain s' where
    l: "trim_left mets fc mg s e = Inr s'" "s \<le> s'" "s' \<le> e"
       "s' < e \<longrightarrow> col_ok (mets ! s') mg fc" "s' = s \<or> \<not> col_ok (mets ! s) mg fc"
    by blast
  from trim_right_ok [OF assms(1) l(3), of fc mg] obtain e' where
    r: "trim_right mets fc mg s' e = Inr e'" "s' \<le> e'" "e' \<le> e"
       "s' < e' \<longrightarrow> col_ok (mets ! (e' - 1)) mg fc" "e' = e \<or> \<not> col_ok (mets ! (e - 1)) mg fc"
    by blast
  show ?thesis
  proof (cases "s' < e'")
    case True
    with l r show ?thesis by (auto simp: soft_trim_block_def)
  next
    case False
    with l r show ?thesis by (simp add: soft_trim_block_def)
  qed
qed

lemma trim_blocks_ok:
  assumes "\<forall>(s, e) \<in> set blocks. s \<le> e \<and> e \<le> length mets"
  shows "\<exists>tbs. trim_blocks blocks mets fc mg k = Inr tbs \<and>
           (\<forall>tb \<in> set tbs. good_trim mets fc mg k blocks tb)"
  using assms
proof (induction blocks)
  case Nil
  then show ?case by simp
next
  case (Cons b bs)
  obtain s e where b: "b = (s, e)" by (cases b)
  with Cons.prems have se: "s \<le> e" "e \<le> length mets" by auto
  from Cons obtain tbs where
    t: "trim_blocks bs mets fc mg k = Inr tbs" "\<forall>tb \<in> set tbs. good_trim mets fc mg k bs tb"
    by auto
  from t(2) have t': "\<forall>tb \<in> set tbs. good_trim mets fc mg k (b # bs) tb"
    by (auto simp: good_trim_def)
  from soft_trim_block_ok [OF se(2) se(1), of fc mg] show ?case
  proof
    assume "soft_trim_block (s, e) mets fc mg = Inr None"
    with t t' b show ?thesis by simp
  next
    assume "\<exists>s' e'. soft_trim_block (s, e) mets fc mg = Inr (Some (s', e')) \<and>
            s \<le> s' \<and> s' < e' \<and> e' \<le> e \<and>
            col_ok (mets ! s') mg fc \<and> col_ok (mets ! (e' - 1)) mg fc \<and>
            (s' = s \<or> \<not> col_ok (mets ! s) mg fc) \<and>
            (e' = e \<or> \<not> col_ok (mets ! (e - 1)) mg fc)"
    then obtain s' e' where
      st: "soft_trim_block (s, e) mets fc mg = Inr (Some (s', e'))"
      and p: "s \<le> s'" "s' < e'" "e' \<le> e"
            "col_ok (mets ! s') mg fc" "col_ok (mets ! (e' - 1)) mg fc"
            "s' = s \<or> \<not> col_ok (mets ! s) mg fc"
            "e' = e \<or> \<not> col_ok (mets ! (e - 1)) mg fc"
      by blast
    show ?thesis
    proof (cases "k \<le> int e' - int s'")
      case True
      with p b have "good_trim mets fc mg k (b # bs) (s', e')"
        by (auto simp: good_trim_def)
      with t t' b st True show ?thesis by simp
    next
      case False
      with t t' b st show ?thesis by simp
    qed
  qed
qed

lemma promoted_iff:
  "promoted m r k \<longleftrightarrow> (\<exists>i j. i \<le> k \<and> k < j \<and> short_inner_run m r i j)"
proof
  assume "promoted m r k"
  then obtain i j where "i \<in> {..k}" "j \<in> {k<..<length m}" "short_inner_run m r i j"
    unfolding promoted_def by blast
  then have "i \<le> k \<and> k < j \<and> short_inner_run m r i j" by simp
  then show "\<exists>i j. i \<le> k \<and> k < j \<and> short_inner_run m r i j" by blast
next
  assume "\<exists>i j. i \<le> k \<and> k < j \<and> short_inner_run m r i j"
  then obtain i j where ij: "i \<le> k" "k < j" "short_inner_run m r i j" by blast
  then have "j < length m" by (simp add: short_inner_run_def)
  with ij have "i \<in> {..k}" "j \<in> {k<..<length m}" by simp_all
  with ij(3) show "promoted m r k" unfolding promoted_def by blast
qed

lemma scan_run_spec:
  "i \<le> length m \<Longrightarrow>
   (\<forall>t. i \<le> t \<and> t < scan_run m i \<longrightarrow> \<not> m ! t) \<and>
   (scan_run m i = length m \<or> m ! (scan_run m i))"
proof (induction m i rule: scan_run.induct)
  case (1 m j)
  show ?case
  proof (cases "j < length m \<and> \<not> m ! j")
    case True
    with 1 have ih: "(\<forall>t. j + 1 \<le> t \<and> t < scan_run m (j + 1) \<longrightarrow> \<not> m ! t) \<and>
       (scan_run m (j + 1) = length m \<or> m ! (scan_run m (j + 1)))" by simp
    have "\<not> m ! t" if "j \<le> t" "t < scan_run m (j + 1)" for t
    proof (cases "t = j")
      case True
      with \<open>j < length m \<and> \<not> m ! j\<close> show ?thesis by simp
    next
      case False
      with that ih show ?thesis by simp
    qed
    with ih True show ?thesis by (simp add: scan_run_step)
  next
    case False
    with 1 show ?thesis by (auto simp: scan_run_stop)
  qed
qed

lemma fold_update_True_nth:
  "\<forall>k \<in> set ks. k < length m \<Longrightarrow> p < length m \<Longrightarrow>
   fold (\<lambda>k m. m[k := True]) ks m ! p = (p \<in> set ks \<or> m ! p)"
proof (induction ks arbitrary: m)
  case Nil
  then show ?case by simp
next
  case (Cons a ks)
  then show ?case by (auto simp: nth_list_update)
qed

lemma fill_true_nth:
  "j \<le> length m \<Longrightarrow> p < length m \<Longrightarrow> fill_true m i j ! p = (i \<le> p \<and> p < j \<or> m ! p)"
  unfolding fill_true_def by (subst fold_update_True_nth) auto

text \<open>A run of unkept columns that is maximal determines its own bounds.\<close>

lemma promoted_in_run:
  assumes k: "i \<le> k" "k < j" "j \<le> length m"
    and run: "\<forall>t. i \<le> t \<and> t < j \<longrightarrow> \<not> m ! t"
    and left: "i = 0 \<or> m ! (i - 1)"
    and right: "j = length m \<or> m ! j"
  shows "promoted m r k \<longleftrightarrow>
           (int (j - i) \<le> r \<and> (1 \<le> i \<and> m ! (i - 1)) \<and> (j < length m \<and> m ! j))"
proof
  assume "int (j - i) \<le> r \<and> (1 \<le> i \<and> m ! (i - 1)) \<and> (j < length m \<and> m ! j)"
  with k run have "short_inner_run m r i j" by (auto simp: short_inner_run_def)
  with k show "promoted m r k" unfolding promoted_iff by blast
next
  assume "promoted m r k"
  then obtain a b where ab: "a \<le> k" "k < b" "short_inner_run m r a b"
    unfolding promoted_iff by blast
  then have s: "0 < a" "b < length m" "m ! (a - 1)" "m ! b"
    "\<forall>t. a \<le> t \<and> t < b \<longrightarrow> \<not> m ! t" "int (b - a) \<le> r"
    by (auto simp: short_inner_run_def)
  have "a = i"
  proof (rule ccontr)
    assume "a \<noteq> i"
    then consider "a < i" | "i < a" by linarith
    then show False
    proof cases
      case 1
      then have "a \<le> i - 1" "i - 1 < b" "i \<noteq> 0" using k ab by simp_all
      with s(5) left show False by blast
    next
      case 2
      then have "i \<le> a - 1" "a - 1 < j" using k ab by simp_all
      with run s(3) show False by blast
    qed
  qed
  moreover have "b = j"
  proof (rule ccontr)
    assume "b \<noteq> j"
    then consider "b < j" | "j < b" by linarith
    then show False
    proof cases
      case 1
      then have "i \<le> b" using k ab by simp
      with 1 run s(4) show False by blast
    next
      case 2
      then have "a \<le> j" "j \<noteq> length m" using k ab s(2) by simp_all
      with 2 s(5) right show False by blast
    qed
  qed
  ultimately show "int (j - i) \<le> r \<and> (1 \<le> i \<and> m ! (i - 1)) \<and> (j < length m \<and> m ! j)"
    using s by simp
qed

lemma short_inner_run_agree:
  assumes "length m' = length m" "\<forall>t. j \<le> t \<and> t < length m \<longrightarrow> m' ! t = m ! t" "j < a"
  shows "short_inner_run m' r a b \<longleftrightarrow> short_inner_run m r a b"
proof (cases "a < b \<and> b < length m")
  case False
  with assms(1) show ?thesis by (auto simp: short_inner_run_def)
next
  case True
  with assms(3) have "j \<le> a - 1 \<and> a - 1 < length m" "j \<le> b \<and> b < length m" by linarith+
  with assms(2) have "m' ! (a - 1) = m ! (a - 1)" "m' ! b = m ! b" by blast+
  moreover have "(\<forall>t \<in> {a..<b}. \<not> m' ! t) \<longleftrightarrow> (\<forall>t \<in> {a..<b}. \<not> m ! t)"
  proof (intro ball_cong refl)
    fix t assume "t \<in> {a..<b}"
    with True assms have "j \<le> t \<and> t < length m" by simp
    with assms(2) show "(\<not> m' ! t) = (\<not> m ! t)" by simp
  qed
  ultimately show ?thesis unfolding short_inner_run_def using assms(1) by simp
qed

lemma promoted_agree:
  assumes len: "length m' = length m"
    and agree: "\<forall>t. j \<le> t \<and> t < length m \<longrightarrow> m' ! t = m ! t"
    and k: "j \<le> k" and mj: "m ! j"
  shows "promoted m' r k \<longleftrightarrow> promoted m r k"
proof -
  have *: "j < a" if "a \<le> k" "k < b" "short_inner_run M r a b" "M ! j" for a b M
  proof (rule ccontr)
    assume "\<not> j < a"
    with that k have "j \<in> {a..<b}" by simp
    with that(3,4) show False by (auto simp: short_inner_run_def)
  qed
  show ?thesis
  proof
    assume "promoted m' r k"
    then obtain a b where ab: "a \<le> k" "k < b" "short_inner_run m' r a b"
      unfolding promoted_iff by blast
    then have "b < length m" using len by (simp add: short_inner_run_def)
    with ab k agree mj have "m' ! j" by simp
    from * [OF ab this] have "j < a" .
    with ab short_inner_run_agree [OF len agree this] show "promoted m r k"
      unfolding promoted_iff by blast
  next
    assume "promoted m r k"
    then obtain a b where ab: "a \<le> k" "k < b" "short_inner_run m r a b"
      unfolding promoted_iff by blast
    from * [OF ab mj] have "j < a" .
    with ab short_inner_run_agree [OF len agree this] show "promoted m' r k"
      unfolding promoted_iff by blast
  qed
qed

lemma absorb_loop_nth:
  "i = 0 \<or> length m \<le> i \<or> m ! (i - 1) \<or> m ! i \<Longrightarrow>
   length (absorb_loop m r i) = length m \<and>
   (\<forall>k < length m. absorb_loop m r i ! k = (if k < i then m ! k else m ! k \<or> promoted m r k))"
proof (induction m r i rule: absorb_loop.induct)
  case (1 m r i)
  show ?case
  proof (cases "i < length m")
    case False
    then show ?thesis by (subst (1 2) absorb_loop.simps) simp
  next
    case True
    note iL = True
    show ?thesis
    proof (cases "m ! i")
      case True
      have eq: "absorb_loop m r i = absorb_loop m r (i + 1)"
        using iL True by (subst absorb_loop.simps) simp
      from True have "i + 1 = 0 \<or> length m \<le> i + 1 \<or> m ! (i + 1 - 1) \<or> m ! (i + 1)" by simp
      from 1(2) [OF iL _ this] True
      have ih: "length (absorb_loop m r (i + 1)) = length m"
        "\<forall>k < length m. absorb_loop m r (i + 1) ! k =
            (if k < i + 1 then m ! k else m ! k \<or> promoted m r k)" by simp_all
      have "absorb_loop m r (i + 1) ! k = (if k < i then m ! k else m ! k \<or> promoted m r k)"
        if "k < length m" for k
      proof (cases "k = i")
        case True
        with ih(2) that \<open>m ! i\<close> show ?thesis by simp
      next
        case False
        with ih(2) that show ?thesis by auto
      qed
      with ih(1) eq show ?thesis by simp
    next
      case False
      define j where "j = scan_run m i"
      define c where "c \<longleftrightarrow> int (j - i) \<le> r \<and> (1 \<le> i \<and> m ! (i - 1)) \<and> (j < length m \<and> m ! j)"
      define m' where "m' = (if c then fill_true m i j else m)"
      have eq: "absorb_loop m r i = absorb_loop m' r j"
        using iL False by (subst absorb_loop.simps) (simp add: j_def c_def m'_def Let_def)
      have ij: "i < j" "j \<le> length m"
        using scan_run_gt [OF iL False] scan_run_le [of i m] iL by (simp_all add: j_def)
      have run: "\<forall>t. i \<le> t \<and> t < j \<longrightarrow> \<not> m ! t" and right: "j = length m \<or> m ! j"
        using scan_run_spec [of i m] iL by (simp_all add: j_def)
      from 1(3) iL False have left: "i = 0 \<or> m ! (i - 1)" by simp
      have len: "length m' = length m" by (simp add: m'_def)
      have nth: "m' ! k = (c \<and> i \<le> k \<and> k < j \<or> m ! k)" if "k < length m" for k
        using that ij by (simp add: m'_def fill_true_nth)
      have P: "j = 0 \<or> length m' \<le> j \<or> m' ! (j - 1) \<or> m' ! j"
        using right len nth [of j] ij by auto
      have ih: "length (absorb_loop m' r j) = length m'"
        "\<forall>k < length m'. absorb_loop m' r j ! k =
            (if k < j then m' ! k else m' ! k \<or> promoted m' r k)"
        using 1(1) [OF iL False j_def refl refl refl, of ] P
        unfolding c_def [symmetric] m'_def [symmetric] by simp_all
      have "absorb_loop m' r j ! k = (if k < i then m ! k else m ! k \<or> promoted m r k)"
        if kL: "k < length m" for k
      proof -
        consider "k < i" | "i \<le> k" "k < j" | "j \<le> k" by linarith
        then show ?thesis
        proof cases
          case 1
          with ih(2) kL len ij nth [OF kL] show ?thesis by simp
        next
          case 2
          from promoted_in_run [OF 2(1) 2(2) ij(2) run left right, of r]
          have "promoted m r k \<longleftrightarrow> c" by (simp add: c_def)
          moreover from run 2 have "\<not> m ! k" by simp
          ultimately show ?thesis using ih(2) kL len 2 nth [OF kL] by simp
        next
          case 3
          with kL right have mj: "m ! j" by auto
          have agree: "\<forall>t. j \<le> t \<and> t < length m \<longrightarrow> m' ! t = m ! t"
            using nth by auto
          from promoted_agree [OF len agree 3 mj]
          have "promoted m' r k \<longleftrightarrow> promoted m r k" .
          with ih(2) kL len 3 ij nth [OF kL] show ?thesis by simp
        qed
      qed
      with ih(1) len eq show ?thesis by simp
    qed
  qed
qed

lemma allow_short_nonconserved_runs_nth:
  "length (allow_short_nonconserved_runs m r) = length m \<and>
   (\<forall>k < length m. allow_short_nonconserved_runs m r ! k = (m ! k \<or> 0 < r \<and> promoted m r k))"
proof (cases "r \<le> 0")
  case True
  then show ?thesis by (simp add: allow_short_nonconserved_runs_def)
next
  case False
  with absorb_loop_nth [of 0 m r] show ?thesis
    by (simp add: allow_short_nonconserved_runs_def)
qed

section \<open>The golden example (claim C3)\<close>

lemma golden_column_metrics: "column_metrics (map snd golden_entries) = Inr golden_mets"
  by code_simp

lemma golden_base_mask:
  "base_mask golden_mets (34 / 100) (67 / 100) = [True, True, True, False, True]"
  by code_simp

lemma golden_find_blocks: "find_blocks [True, True, True, False, True] 3 = [(0, 3)]"
  by code_simp

lemma golden_blocks: "gblock_blocks golden_mets 3 (34 / 100) (67 / 100) None 0 = Inr [(0, 3)]"
  by code_simp

lemma golden_filter:
  "gblock_filter golden_entries 3 (34 / 100) (67 / 100) None False 0 =
     Inr [(''s1'', ''MST''), (''s2'', ''MST''), (''s3'', ''MST'')]"
  by code_simp

text \<open>
  Claim C3, as stated, says that on the entries \<open>MSTAG\<close>, \<open>MST-G\<close>, \<open>MSTTG\<close> with
  \<open>minBlockLen = 3\<close>, \<open>maxGap = 0.34\<close>, \<open>minCons = 0.67\<close> both kept runs \<open>[0,3)\<close> and
  \<open>[4,5)\<close> fail the minimum block length, so that no block survives.  The code
  computes the metrics \<open>golden_mets\<close> and keeps the block \<open>[0,3)\<close>: the set of surviving
  blocks is not empty.
\<close>

theorem golden_example_blocks_counterexample:
  "column_metrics (map snd golden_entries) = Inr golden_mets \<and>
   gblock_blocks golden_mets 3 (34 / 100) (67 / 100) None 0 \<noteq> Inr []"
proof -
  have "gblock_blocks golden_mets 3 (34 / 100) (67 / 100) None 0 \<noteq> Inr []"
    unfolding golden_blocks by simp
  with golden_column_metrics show ?thesis by (rule conjI)
qed

text \<open>
  Claim C3, amended: column 3 (\<open>A/-/T\<close>) has \<open>gap_ratio = 1/3\<close> and \<open>cons_ratio = 1/2\<close>,
  fails \<open>minCons\<close> and is dropped from the mask; of the kept runs \<open>[0,3)\<close> and \<open>[4,5)\<close>
  the first has length 3, meets \<open>minBlockLen = 3\<close> and survives, only \<open>[4,5)\<close> is
  discarded; every output sequence is \<open>MST\<close>.
\<close>

theorem golden_example:
  "column_metrics (map snd golden_entries) = Inr golden_mets \<and>
   golden_mets ! 3 = \<lparr>gap_ratio = 1 / 3, cons_ratio = 1 / 2\<rparr> \<and>
   base_mask golden_mets (34 / 100) (67 / 100) = [True, True, True, False, True] \<and>
   find_blocks [True, True, True, False, True] 3 = [(0, 3)] \<and>
   gblock_blocks golden_mets 3 (34 / 100) (67 / 100) None 0 = Inr [(0, 3)] \<and>
   gblock_filter golden_entries 3 (34 / 100) (67 / 100) None False 0 =
     Inr [(''s1'', ''MST''), (''s2'', ''MST''), (''s3'', ''MST'')]"
proof -
  have "golden_mets ! 3 = \<lparr>gap_ratio = 1 / 3, cons_ratio = 1 / 2\<rparr>"
    by (simp add: golden_mets_def)
  with golden_column_metrics golden_base_mask golden_find_blocks golden_blocks golden_filter
  show ?thesis by (intro conjI)
qed

section \<open>Column metrics (claim C6)\<close>

text \<open>
  Claim C6: for a non-empty matrix of \<open>n\<close> sequences that all have length \<open>L\<close>,
  \<^verbatim>\<open>column_metrics\<close> returns (without raising) a list of exactly \<open>L\<close> entries, every
  \<open>gap_ratio\<close> and \<open>cons_ratio\<close> lies in \<open>[0,1]\<close>, \<open>gap_ratio[i]\<close> is the number of
  sequences with a gap at column \<open>i\<close> divided by \<open>n\<close>, and \<open>cons_ratio[i]\<close> is 0 when
  the column is all gaps and otherwise the maximum count of one non-gap residue divided
  by the number of non-gap residues of the column.
\<close>

theorem column_metrics_spec:
  assumes "seqs \<noteq> []" and "\<forall>s \<in> set seqs. length s = L"
  shows "\<exists>mets. column_metrics seqs = Inr mets \<and> length mets = L \<and>
           (\<forall>i < L.
              0 \<le> gap_ratio (mets ! i) \<and> gap_ratio (mets ! i) \<le> 1 \<and>
              0 \<le> cons_ratio (mets ! i) \<and> cons_ratio (mets ! i) \<le> 1 \<and>
              gap_ratio (mets ! i) = spec_gap_ratio seqs i \<and>
              cons_ratio (mets ! i) = spec_cons_ratio seqs i)"
proof -
  let ?mets = "map (\<lambda>i. col_metrics (map (\<lambda>s. s ! i) seqs) (length seqs)) [0..<L]"
  have "column_metrics seqs = Inr ?mets" using assms by (rule column_metrics_ok)
  moreover have "length ?mets = L" by simp
  moreover have "\<forall>i < L.
              0 \<le> gap_ratio (?mets ! i) \<and> gap_ratio (?mets ! i) \<le> 1 \<and>
              0 \<le> cons_ratio (?mets ! i) \<and> cons_ratio (?mets ! i) \<le> 1 \<and>
              gap_ratio (?mets ! i) = spec_gap_ratio seqs i \<and>
              cons_ratio (?mets ! i) = spec_cons_ratio seqs i"
    using spec_gap_ratio_bounds [OF assms(1)] spec_cons_ratio_bounds [of seqs]
    by (simp add: col_metrics_gap_ratio col_metrics_cons_ratio)
  ultimately show ?thesis by blast
qed

theorem column_metrics_spec_witness:
  "\<exists>mets. column_metrics [''MSTAG'', ''MST-G'', ''MSTTG''] = Inr mets \<and> length mets = 5 \<and>
     gap_ratio (mets ! 3) = 1 / 3 \<and> cons_ratio (mets ! 3) = 1 / 2 \<and>
     gap_ratio (mets ! 0) = 0 \<and> cons_ratio (mets ! 0) = 1"
proof -
  let ?seqs = "[''MSTAG'', ''MST-G'', ''MSTTG'']"
  have g: "spec_gap_ratio ?seqs 3 = 1 / 3" "spec_gap_ratio ?seqs 0 = 0"
    by (simp_all add: spec_gap_ratio_def gap_char_def)
  have c: "spec_cons_ratio ?seqs 3 = 1 / 2" "spec_cons_ratio ?seqs 0 = 1"
    by (simp_all add: spec_cons_ratio_def gap_char_def residues_at_def residue_count_def)
  have "?seqs \<noteq> []" "\<forall>s \<in> set ?seqs. length s = 5" by simp_all
  from column_metrics_spec [OF this] obtain mets where
    m: "column_metrics ?seqs = Inr mets" "length mets = 5"
    and a: "\<forall>i < 5. 0 \<le> gap_ratio (mets ! i) \<and> gap_ratio (mets ! i) \<le> 1 \<and>
              0 \<le> cons_ratio (mets ! i) \<and> cons_ratio (mets ! i) \<le> 1 \<and>
              gap_ratio (mets ! i) = spec_gap_ratio ?seqs i \<and>
              cons_ratio (mets ! i) = spec_cons_ratio ?seqs i"
    by blast
  from a have "gap_ratio (mets ! 3) = spec_gap_ratio ?seqs 3"
    "cons_ratio (mets ! 3) = spec_cons_ratio ?seqs 3"
    "gap_ratio (mets ! 0) = spec_gap_ratio ?seqs 0"
    "cons_ratio (mets ! 0) = spec_cons_ratio ?seqs 0" by simp_all
  with g c m show ?thesis by simp
qed

end
